theory Spec2Isabelle
  imports Main "HOL-Library.Word"
begin

section \<open>The fake clock of package clock (clock.go)\<close>

subsection \<open>Time, durations and channels\<close>

text \<open>
  \<^verbatim>\<open>time.Duration\<close> is an \<^verbatim>\<open>int64\<close> count of nanoseconds: comparison is signed
  (\<open>\<le>s\<close>, \<open><s\<close>) and subtraction wraps around. \<^verbatim>\<open>time.Time\<close> belongs to the Go standard
  library; an instant is read as an unbounded count of nanoseconds, and \<^verbatim>\<open>Time.Add\<close>
  returns a new instant and leaves its receiver alone.
\<close>

type_synonym duration = "64 word"

type_synonym instant = int

definition time_Add :: "instant \<Rightarrow> duration \<Rightarrow> instant" where
  "time_Add t d = t + sint d"

text \<open>
  A buffered channel \<^verbatim>\<open>make(chan time.Time, n)\<close>: the values sent and not yet received,
  oldest first, and the capacity.
\<close>

record chan =
  chan_buf :: "instant list"
  chan_cap :: nat

definition make_chan :: "nat \<Rightarrow> chan" where
  "make_chan n = \<lparr>chan_buf = [], chan_cap = n\<rparr>"

text \<open>
  \<^verbatim>\<open>select { case ch <- v: default: }\<close>: the send happens when the buffer has room,
  otherwise the default branch runs and nothing changes.
\<close>

definition try_send :: "chan \<Rightarrow> instant \<Rightarrow> chan" where
  "try_send c v = (if length (chan_buf c) < chan_cap c then c\<lparr>chan_buf := chan_buf c @ [v]\<rparr> else c)"

text \<open>A consumer's receive \<^verbatim>\<open><-ch\<close> takes the oldest value; on an empty buffer nothing is taken.\<close>

definition chan_recv :: "chan \<Rightarrow> chan" where
  "chan_recv c = c\<lparr>chan_buf := tl (chan_buf c)\<rparr>"

subsection \<open>Waiters and the clock\<close>

record waiter =
  timeout :: duration
  notifyCh :: chan
  consumerWaiting :: bool

text \<open>
  The clock holds pointers to waiters, and so does every timer handle. The waiter objects
  live in \<open>heap\<close>, addressed by their index; \<open>waiters\<close> is the slice \<^verbatim>\<open>[]*waiter\<close> of
  addresses. The mutex is not part of the state: every operation below is one critical
  section.
\<close>

type_synonym addr = nat

record FakeClock =
  heap :: "waiter list"
  waiters :: "addr list"
  curTime :: instant

definition NewFakeClock :: "instant \<Rightarrow> FakeClock" where
  "NewFakeClock t = \<lparr>heap = [], waiters = [], curTime = t\<rparr>"

definition Now :: "FakeClock \<Rightarrow> instant" where
  "Now fc = curTime fc"

definition makeWaiter :: "duration \<Rightarrow> bool \<Rightarrow> waiter" where
  "makeWaiter d cw = \<lparr>timeout = d, notifyCh = make_chan 1, consumerWaiting = cw\<rparr>"

text \<open>\<open>After\<close> returns the channel of the new waiter, named here by the waiter's address.\<close>

definition After :: "duration \<Rightarrow> FakeClock \<Rightarrow> addr \<times> FakeClock" where
  "After d fc =
     (let a = length (heap fc)
      in (a, fc\<lparr>heap := heap fc @ [makeWaiter d True], waiters := waiters fc @ [a]\<rparr>))"

text \<open>A \<open>fakeClockTimer\<close> is the pair of the clock and a waiter pointer; the address stands for it.\<close>

definition NewTimer :: "duration \<Rightarrow> FakeClock \<Rightarrow> addr \<times> FakeClock" where
  "NewTimer d fc =
     (let a = length (heap fc)
      in (a, fc\<lparr>heap := heap fc @ [makeWaiter d False], waiters := waiters fc @ [a]\<rparr>))"

text \<open>
  The loop of \<open>Advance\<close> over \<^verbatim>\<open>fc.waiters\<close>: it writes through each pointer and collects
  the waiters that stay in \<open>active\<close>. The instant sent is \<^verbatim>\<open>fc.curTime\<close>.
\<close>

fun Advance_loop :: "duration \<Rightarrow> instant \<Rightarrow> addr list \<Rightarrow> waiter list \<Rightarrow> addr list
    \<Rightarrow> waiter list \<times> addr list" where
  "Advance_loop d now [] h active = (h, active)"
| "Advance_loop d now (a # as) h active =
     (let w = h ! a in
      if timeout w \<le>s d
      then Advance_loop d now as
             (h[a := w\<lparr>timeout := 0, notifyCh := try_send (notifyCh w) now\<rparr>]) active
      else Advance_loop d now as (h[a := w\<lparr>timeout := timeout w - d\<rparr>]) (active @ [a]))"

text \<open>
  \<open>Advance\<close> evaluates \<^verbatim>\<open>fc.curTime.Add(d)\<close> as a statement: the instant it returns is
  dropped and the field keeps its value.
\<close>

definition Advance :: "duration \<Rightarrow> FakeClock \<Rightarrow> FakeClock" where
  "Advance d fc =
     (let dropped = time_Add (curTime fc) d;
          (h, active) = Advance_loop d (curTime fc) (waiters fc) (heap fc) []
      in fc\<lparr>heap := h, waiters := active\<rparr>)"

subsection \<open>Timer handles\<close>

definition C :: "addr \<Rightarrow> FakeClock \<Rightarrow> FakeClock" where
  "C a fc = fc\<lparr>heap := (heap fc)[a := (heap fc ! a)\<lparr>consumerWaiting := True\<rparr>]\<rparr>"

definition Reset :: "addr \<Rightarrow> duration \<Rightarrow> FakeClock \<Rightarrow> FakeClock" where
  "Reset a d fc = fc\<lparr>heap := (heap fc)[a := (heap fc ! a)\<lparr>timeout := d\<rparr>]\<rparr>"

fun Stop_loop :: "addr \<Rightarrow> addr list \<Rightarrow> addr list \<Rightarrow> addr list" where
  "Stop_loop a [] active = active"
| "Stop_loop a (w # ws) active =
     (if w = a then Stop_loop a ws active else Stop_loop a ws (active @ [w]))"

definition Stop :: "addr \<Rightarrow> FakeClock \<Rightarrow> bool \<times> FakeClock" where
  "Stop a fc =
     (let alreadyFired = (timeout (heap fc ! a) = 0)
      in (alreadyFired, fc\<lparr>waiters := Stop_loop a (waiters fc) []\<rparr>))"

text \<open>A consumer receiving from the channel of waiter \<open>a\<close>.\<close>

definition Recv :: "addr \<Rightarrow> FakeClock \<Rightarrow> FakeClock" where
  "Recv a fc = fc\<lparr>heap := (heap fc)[a := (heap fc ! a)\<lparr>notifyCh := chan_recv (notifyCh (heap fc ! a))\<rparr>]\<rparr>"

subsection \<open>Sequences of calls\<close>

text \<open>
  Each call holds the mutex from start to end, so a concurrent execution is a sequence of
  these calls in the order in which they took the lock.
\<close>

datatype call =
    CallAfter duration
  | CallNewTimer duration
  | CallAdvance duration
  | CallC addr
  | CallReset addr duration
  | CallStop addr
  | CallRecv addr

fun exec :: "call \<Rightarrow> FakeClock \<Rightarrow> FakeClock" where
  "exec (CallAfter d) fc = snd (After d fc)"
| "exec (CallNewTimer d) fc = snd (NewTimer d fc)"
| "exec (CallAdvance d) fc = Advance d fc"
| "exec (CallC a) fc = C a fc"
| "exec (CallReset a d) fc = Reset a d fc"
| "exec (CallStop a) fc = snd (Stop a fc)"
| "exec (CallRecv a) fc = Recv a fc"

fun run :: "call list \<Rightarrow> FakeClock \<Rightarrow> FakeClock" where
  "run [] fc = fc"
| "run (c # cs) fc = run cs (exec c fc)"

subsection \<open>WaitAdvance\<close>

text \<open>
  One polling pass: the inner loop over \<^verbatim>\<open>fc.waiters\<close> with the running count
  \<open>waitingConsumers\<close>; \<open>True\<close> when the comparison inside the loop succeeds.
\<close>

fun WaitAdvance_scan :: "int \<Rightarrow> waiter list \<Rightarrow> addr list \<Rightarrow> int \<Rightarrow> bool" where
  "WaitAdvance_scan numWaiters h [] waitingConsumers = False"
| "WaitAdvance_scan numWaiters h (a # as) waitingConsumers =
     (let c = (if consumerWaiting (h ! a) then waitingConsumers + 1 else waitingConsumers)
      in if c = numWaiters then True else WaitAdvance_scan numWaiters h as c)"

definition WaitAdvance_pass :: "int \<Rightarrow> FakeClock \<Rightarrow> bool" where
  "WaitAdvance_pass numWaiters fc = WaitAdvance_scan numWaiters (heap fc) (waiters fc) 0"

text \<open>
  The outer loop. The lock is released after every pass, so other goroutines run between
  a pass and what follows it (the next pass, or the call of \<open>Advance\<close>): the list gives,
  for each pass performed, the calls of the other goroutines after it. \<open>None\<close> means that
  the call is still polling after these passes.
\<close>

fun WaitAdvance :: "int \<Rightarrow> duration \<Rightarrow> call list list \<Rightarrow> FakeClock \<Rightarrow> FakeClock option" where
  "WaitAdvance numWaiters d [] fc = None"
| "WaitAdvance numWaiters d (others # rest) fc =
     (if WaitAdvance_pass numWaiters fc then Some (Advance d (run others fc))
      else WaitAdvance numWaiters d rest (run others fc))"

text \<open>
  A goroutine's program: calls that take the lock once, and \<open>WaitAdvance\<close> with the
  calls of the other goroutines that interleave with its passes. \<open>None\<close> when a
  \<open>WaitAdvance\<close> of the program is still polling.
\<close>

datatype operation = Atomic call | OpWaitAdvance int duration "call list list"

fun run_ops :: "operation list \<Rightarrow> FakeClock \<Rightarrow> FakeClock option" where
  "run_ops [] fc = Some fc"
| "run_ops (Atomic c # os) fc = run_ops os (exec c fc)"
| "run_ops (OpWaitAdvance n d others # os) fc =
     (case WaitAdvance n d others fc of None \<Rightarrow> None | Some fc' \<Rightarrow> run_ops os fc')"

text \<open>The clock as pass number \<open>k\<close> of a \<open>WaitAdvance\<close> finds it (passes count from 0).\<close>

definition poll_state :: "call list list \<Rightarrow> nat \<Rightarrow> FakeClock \<Rightarrow> FakeClock" where
  "poll_state others k fc = run (concat (take k others)) fc"

text \<open>The number of live waiters with \<open>consumerWaiting\<close> set.\<close>

definition waitingCount :: "FakeClock \<Rightarrow> nat" where
  "waitingCount fc = length (filter (\<lambda>a. consumerWaiting (heap fc ! a)) (waiters fc))"

subsection \<open>Well-formed clocks\<close>

text \<open>
  Every pointer in the slice refers to an allocated waiter and no waiter is in the slice
  twice; every channel was made by \<open>makeWaiter\<close>.
\<close>

definition wf_clock :: "FakeClock \<Rightarrow> bool" where
  "wf_clock fc \<longleftrightarrow> distinct (waiters fc) \<and> (\<forall>a \<in> set (waiters fc). a < length (heap fc))"

definition slots_ok :: "FakeClock \<Rightarrow> bool" where
  "slots_ok fc \<longleftrightarrow> (\<forall>w \<in> set (heap fc). chan_cap (notifyCh w) = 1 \<and> length (chan_buf (notifyCh w)) \<le> 1)"

section \<open>Properties\<close>

subsection \<open>The loops of Advance and Stop\<close>

lemma Advance_loop_length: "length (fst (Advance_loop d now as h act)) = length h"
  by (induction as arbitrary: h act) (auto simp: Let_def)

lemma Advance_loop_other:
  "a \<notin> set as \<Longrightarrow> fst (Advance_loop d now as h act) ! a = h ! a"
  by (induction as arbitrary: h act) (auto simp: Let_def)

lemma Advance_loop_subset:
  "set (snd (Advance_loop d now as h act)) \<subseteq> set act \<union> set as"
proof (induction as arbitrary: h act)
  case Nil then show ?case by simp
next
  case (Cons a as)
  show ?case
  proof (cases "timeout (h ! a) \<le>s d")
    case True
    then show ?thesis
      using Cons.IH [of "h[a := (h ! a)\<lparr>timeout := 0, notifyCh := try_send (notifyCh (h ! a)) now\<rparr>]" act]
      by (auto simp: Let_def)
  next
    case False
    then show ?thesis
      using Cons.IH [of "h[a := (h ! a)\<lparr>timeout := timeout (h ! a) - d\<rparr>]" "act @ [a]"]
      by (auto simp: Let_def)
  qed
qed

lemma Advance_loop_heap:
  "distinct as \<Longrightarrow> a \<in> set as \<Longrightarrow> a < length h \<Longrightarrow>
   fst (Advance_loop d now as h act) ! a =
     (if timeout (h ! a) \<le>s d
      then (h ! a)\<lparr>timeout := 0, notifyCh := try_send (notifyCh (h ! a)) now\<rparr>
      else (h ! a)\<lparr>timeout := timeout (h ! a) - d\<rparr>)"
proof (induction as arbitrary: h act)
  case Nil then show ?case by simp
next
  case (Cons b bs)
  show ?case
  proof (cases "a = b")
    case True
    with Cons.prems have "a \<notin> set bs" by simp
    with True Cons.prems(3) show ?thesis
      by (simp add: Let_def Advance_loop_other)
  next
    case False
    with Cons.prems have in_bs: "a \<in> set bs" and d: "distinct bs" by simp_all
    from False have upd: "\<And>w. h[b := w] ! a = h ! a" by simp
    show ?thesis
      using Cons.IH [OF d in_bs] Cons.prems(3) by (simp add: Let_def upd)
  qed
qed

lemma Advance_loop_active:
  "distinct as \<Longrightarrow>
   snd (Advance_loop d now as h act) = act @ filter (\<lambda>a. \<not> timeout (h ! a) \<le>s d) as"
proof (induction as arbitrary: h act)
  case Nil then show ?case by simp
next
  case (Cons a as)
  have *: "\<And>w. filter (\<lambda>b. \<not> timeout (h[a := w] ! b) \<le>s d) as = filter (\<lambda>b. \<not> timeout (h ! b) \<le>s d) as"
  proof (rule filter_cong [OF refl])
    fix w x assume "x \<in> set as"
    with Cons.prems have "x \<noteq> a" by auto
    then show "(\<not> timeout (h[a := w] ! x) \<le>s d) = (\<not> timeout (h ! x) \<le>s d)" by simp
  qed
  from Cons.prems have d: "distinct as" by simp
  show ?case using Cons.IH [OF d] by (simp add: Let_def *)
qed

lemma Stop_loop_filter: "Stop_loop a ws act = act @ filter (\<lambda>w. w \<noteq> a) ws"
  by (induction ws arbitrary: act) auto

lemma Advance_curTime: "curTime (Advance d fc) = curTime fc"
  by (simp add: Advance_def Let_def split: prod.split)

lemma Advance_heap_eq: "heap (Advance d fc) = fst (Advance_loop d (curTime fc) (waiters fc) (heap fc) [])"
  by (simp add: Advance_def Let_def split: prod.split)

lemma Advance_waiters_eq: "waiters (Advance d fc) = snd (Advance_loop d (curTime fc) (waiters fc) (heap fc) [])"
  by (simp add: Advance_def Let_def split: prod.split)

lemma Advance_heap_length: "length (heap (Advance d fc)) = length (heap fc)"
  by (simp add: Advance_heap_eq Advance_loop_length)

lemma Advance_heap_other: "a \<notin> set (waiters fc) \<Longrightarrow> heap (Advance d fc) ! a = heap fc ! a"
  by (simp add: Advance_heap_eq Advance_loop_other)

lemma Advance_waiters_subset: "set (waiters (Advance d fc)) \<subseteq> set (waiters fc)"
  using Advance_loop_subset [of d "curTime fc" "waiters fc" "heap fc" "[]"]
  by (simp add: Advance_waiters_eq)

lemma Advance_heap_live:
  "wf_clock fc \<Longrightarrow> a \<in> set (waiters fc) \<Longrightarrow>
   heap (Advance d fc) ! a =
     (if timeout (heap fc ! a) \<le>s d
      then (heap fc ! a)\<lparr>timeout := 0, notifyCh := try_send (notifyCh (heap fc ! a)) (curTime fc)\<rparr>
      else (heap fc ! a)\<lparr>timeout := timeout (heap fc ! a) - d\<rparr>)"
  unfolding Advance_heap_eq wf_clock_def
  by (intro Advance_loop_heap) auto

lemma Advance_waiters:
  "wf_clock fc \<Longrightarrow>
   waiters (Advance d fc) = filter (\<lambda>a. \<not> timeout (heap fc ! a) \<le>s d) (waiters fc)"
  by (simp add: Advance_waiters_eq wf_clock_def Advance_loop_active)

lemma Stop_waiters: "waiters (snd (Stop a fc)) = filter (\<lambda>w. w \<noteq> a) (waiters fc)"
  by (simp add: Stop_def Stop_loop_filter)

lemma Stop_heap: "heap (snd (Stop a fc)) = heap fc"
  by (simp add: Stop_def)

lemma exec_curTime: "curTime (exec c fc) = curTime fc"
  by (cases c) (simp_all add: After_def NewTimer_def Advance_curTime C_def Reset_def Stop_def Recv_def Let_def)

lemma run_curTime: "curTime (run cs fc) = curTime fc"
  by (induction cs arbitrary: fc) (simp_all add: exec_curTime)

lemma WaitAdvance_curTime: "WaitAdvance n d others fc = Some fc' \<Longrightarrow> curTime fc' = curTime fc"
  by (induction others arbitrary: fc) (auto simp: Advance_curTime run_curTime split: if_splits)

lemma run_ops_curTime: "run_ops os fc = Some fc' \<Longrightarrow> curTime fc' = curTime fc"
proof (induction os arbitrary: fc)
  case Nil then show ?case by simp
next
  case (Cons o1 os)
  show ?case
  proof (cases o1)
    case (Atomic c)
    with Cons show ?thesis by (simp add: exec_curTime)
  next
    case (OpWaitAdvance n d others)
    with Cons.prems obtain fc1 where w: "WaitAdvance n d others fc = Some fc1" and r: "run_ops os fc1 = Some fc'"
      by (auto split: option.splits)
    from Cons.IH [OF r] WaitAdvance_curTime [OF w] show ?thesis by simp
  qed
qed

lemma exec_wf: "wf_clock fc \<Longrightarrow> wf_clock (exec c fc)"
proof (cases c)
  case (CallAdvance d)
  assume w: "wf_clock fc"
  then have "distinct (waiters (Advance d fc))" by (simp add: Advance_waiters) (simp add: wf_clock_def)
  moreover have "\<forall>a\<in>set (waiters (Advance d fc)). a < length (heap (Advance d fc))"
    using w Advance_waiters_subset [of d fc] by (auto simp: wf_clock_def Advance_heap_length)
  ultimately show ?thesis using CallAdvance by (simp add: wf_clock_def)
qed (auto simp: wf_clock_def After_def NewTimer_def C_def Reset_def Recv_def Stop_waiters Stop_heap Let_def)

lemma run_wf: "wf_clock fc \<Longrightarrow> wf_clock (run cs fc)"
  by (induction cs arbitrary: fc) (simp_all add: exec_wf)

lemma NewFakeClock_wf: "wf_clock (NewFakeClock t)"
  by (simp add: wf_clock_def NewFakeClock_def)

lemma exec_stopped:
  "a < length (heap fc) \<Longrightarrow> a \<notin> set (waiters fc) \<Longrightarrow>
   a < length (heap (exec c fc)) \<and> a \<notin> set (waiters (exec c fc))"
proof (cases c)
  case (CallAdvance d)
  assume "a < length (heap fc)" "a \<notin> set (waiters fc)"
  then show ?thesis using CallAdvance Advance_waiters_subset [of d fc]
    by (auto simp: Advance_heap_length)
qed (auto simp: After_def NewTimer_def C_def Reset_def Recv_def Stop_waiters Stop_heap Let_def)

lemma run_stopped:
  "a < length (heap fc) \<Longrightarrow> a \<notin> set (waiters fc) \<Longrightarrow>
   a < length (heap (run cs fc)) \<and> a \<notin> set (waiters (run cs fc))"
proof (induction cs arbitrary: fc)
  case Nil then show ?case by simp
next
  case (Cons c cs)
  from exec_stopped [OF Cons.prems, of c] Cons.IH [of "exec c fc"] show ?case by simp
qed

subsection \<open>The current time\<close>

text \<open>
  C1 (the code departs from it): after \<open>Advance d\<close>, \<open>Now\<close> should be the earlier \<open>Now\<close>
  plus \<open>d\<close>. On a clock created at instant 0 and advanced by 90 seconds, \<open>Now\<close> is
  still 0, while the earlier \<open>Now\<close> plus 90 seconds is 90000000000.
\<close>

theorem Advance_Now_stale:
  "Now (Advance 90000000000 (NewFakeClock 0)) = 0 \<and>
   time_Add (Now (NewFakeClock 0)) 90000000000 = 90000000000"
  by (simp add: Now_def Advance_curTime NewFakeClock_def time_Add_def)

text \<open>
  C9: whatever calls are made on a clock created by \<open>NewFakeClock t\<close> (\<open>After\<close>,
  \<open>NewTimer\<close>, \<open>Advance\<close>, \<open>C\<close>, \<open>Reset\<close>, \<open>Stop\<close>, receives, and \<open>WaitAdvance\<close> under
  any interleaving), \<open>Now\<close> returns \<open>t\<close>: \<open>curTime\<close> is never assigned again.
\<close>

theorem Now_is_initial:
  "Now (run cs (NewFakeClock t)) = t \<and>
   (run_ops os (NewFakeClock t) = Some fc \<longrightarrow> Now fc = t)"
proof
  show "Now (run cs (NewFakeClock t)) = t"
    by (simp add: Now_def run_curTime) (simp add: NewFakeClock_def)
  show "run_ops os (NewFakeClock t) = Some fc \<longrightarrow> Now fc = t"
  proof
    assume "run_ops os (NewFakeClock t) = Some fc"
    from run_ops_curTime [OF this] show "Now fc = t" by (simp add: Now_def NewFakeClock_def)
  qed
qed

theorem Now_is_initial_witness:
  "run_ops [Atomic (CallAfter 10), Atomic (CallNewTimer 10), Atomic (CallC 1),
            OpWaitAdvance 2 10 [[]], Atomic (CallStop 1), Atomic (CallReset 1 5),
            Atomic (CallAdvance 5)] (NewFakeClock 7)
     = Some \<lparr>heap = [\<lparr>timeout = 0, notifyCh = \<lparr>chan_buf = [7], chan_cap = 1\<rparr>, consumerWaiting = True\<rparr>,
                     \<lparr>timeout = 5, notifyCh = \<lparr>chan_buf = [7], chan_cap = 1\<rparr>, consumerWaiting = True\<rparr>],
             waiters = [], curTime = 7\<rparr>
   \<and> Now \<lparr>heap = [\<lparr>timeout = 0, notifyCh = \<lparr>chan_buf = [7], chan_cap = 1\<rparr>, consumerWaiting = True\<rparr>,
                   \<lparr>timeout = 5, notifyCh = \<lparr>chan_buf = [7], chan_cap = 1\<rparr>, consumerWaiting = True\<rparr>],
           waiters = [], curTime = 7\<rparr> = 7"
proof -
  have r: "run_ops [Atomic (CallAfter 10), Atomic (CallNewTimer 10), Atomic (CallC 1),
            OpWaitAdvance 2 10 [[]], Atomic (CallStop 1), Atomic (CallReset 1 5),
            Atomic (CallAdvance 5)] (NewFakeClock 7)
     = Some \<lparr>heap = [\<lparr>timeout = 0, notifyCh = \<lparr>chan_buf = [7], chan_cap = 1\<rparr>, consumerWaiting = True\<rparr>,
                     \<lparr>timeout = 5, notifyCh = \<lparr>chan_buf = [7], chan_cap = 1\<rparr>, consumerWaiting = True\<rparr>],
             waiters = [], curTime = 7\<rparr>"
    by (simp add: NewFakeClock_def After_def NewTimer_def C_def Stop_def Reset_def Advance_def
        WaitAdvance_pass_def makeWaiter_def make_chan_def try_send_def Let_def)
  from r Now_is_initial [THEN conjunct2, rule_format, OF r] show ?thesis by simp
qed

subsection \<open>Unfolding the operations on concrete clocks\<close>

lemmas eval_defs = NewFakeClock_def After_def NewTimer_def C_def Stop_def Reset_def Recv_def
  Advance_def makeWaiter_def make_chan_def try_send_def chan_recv_def Let_def Now_def

subsection \<open>Timers\<close>

text \<open>
  C2 as stated fails: a waiter created by \<open>NewTimer 10\<close> is in the clock's collection,
  and \<open>Advance 10\<close>, which fires it, removes it although \<open>Stop\<close> was never called.
\<close>

theorem Advance_removes_fired_timer:
  "fst (NewTimer 10 (NewFakeClock 0)) \<in> set (waiters (snd (NewTimer 10 (NewFakeClock 0)))) \<and>
   fst (NewTimer 10 (NewFakeClock 0)) \<notin> set (waiters (Advance 10 (snd (NewTimer 10 (NewFakeClock 0)))))"
  by (simp add: eval_defs)

text \<open>Registering a waiter keeps the clock well formed.\<close>

lemma NewTimer_wf: "wf_clock fc \<Longrightarrow> wf_clock (snd (NewTimer d fc))"
  using exec_wf [of fc "CallNewTimer d"] by simp

lemma After_wf: "wf_clock fc \<Longrightarrow> wf_clock (snd (After d fc))"
  using exec_wf [of fc "CallAfter d"] by simp

text \<open>Which calls take a live waiter out of the collection.\<close>

lemma exec_keeps:
  "wf_clock fc \<Longrightarrow> a \<in> set (waiters fc) \<Longrightarrow>
   a \<notin> set (waiters (exec c fc)) \<longleftrightarrow>
     (c = CallStop a \<or> (\<exists>d. c = CallAdvance d \<and> timeout (heap fc ! a) \<le>s d))"
  by (cases c)
    (auto simp: After_def NewTimer_def C_def Reset_def Recv_def Stop_waiters Advance_waiters Let_def)

text \<open>
  C2, amended: \<open>NewTimer d0\<close> puts a waiter with remaining duration \<open>d0\<close> into the
  collection. A waiter of the collection, a timer's or not, leaves it only by an
  \<open>Advance d\<close> that fires it (remaining duration at most \<open>d\<close>) or by \<open>Stop\<close> on its own
  handle, and each of these two always removes it. Every other call keeps it: \<open>After\<close>,
  \<open>NewTimer\<close>, \<open>C\<close>, \<open>Reset\<close>, a receive, \<open>Stop\<close> on another handle, and an \<open>Advance d\<close>
  with \<open>d\<close> less than its remaining duration.
\<close>

theorem timer_waiter_removal:
  "wf_clock fc \<Longrightarrow>
   (case NewTimer d0 fc of (h, fc1) \<Rightarrow>
      wf_clock fc1 \<and> h \<in> set (waiters fc1) \<and> timeout (heap fc1 ! h) = d0) \<and>
   (\<forall>a \<in> set (waiters fc).
      (a \<in> set (waiters (Advance d fc)) \<longleftrightarrow> \<not> timeout (heap fc ! a) \<le>s d) \<and>
      a \<notin> set (waiters (snd (Stop a fc))) \<and>
      (a \<notin> set (waiters (exec c fc)) \<longleftrightarrow>
         (c = CallStop a \<or> (\<exists>d'. c = CallAdvance d' \<and> timeout (heap fc ! a) \<le>s d'))))"
proof (intro conjI ballI)
  assume w: "wf_clock fc"
  show "case NewTimer d0 fc of (h, fc1) \<Rightarrow>
      wf_clock fc1 \<and> h \<in> set (waiters fc1) \<and> timeout (heap fc1 ! h) = d0"
    using NewTimer_wf [OF w, of d0] by (simp add: NewTimer_def Let_def makeWaiter_def)
next
  fix a assume w: "wf_clock fc" and a: "a \<in> set (waiters fc)"
  show "(a \<in> set (waiters (Advance d fc))) = (\<not> timeout (heap fc ! a) \<le>s d)"
    using a by (simp add: Advance_waiters [OF w])
  show "a \<notin> set (waiters (exec c fc)) \<longleftrightarrow>
         (c = CallStop a \<or> (\<exists>d'. c = CallAdvance d' \<and> timeout (heap fc ! a) \<le>s d'))"
    by (rule exec_keeps [OF w a])
next
  fix a
  show "a \<notin> set (waiters (snd (Stop a fc)))" by (simp add: Stop_waiters)
qed

theorem timer_waiter_removal_witness:
  "wf_clock (snd (NewTimer 10 (NewFakeClock 0))) \<and>
   0 \<in> set (waiters (snd (NewTimer 10 (NewFakeClock 0)))) \<and>
   0 \<in> set (waiters (Advance 3 (snd (NewTimer 10 (NewFakeClock 0))))) \<and>
   0 \<notin> set (waiters (Advance 10 (snd (NewTimer 10 (NewFakeClock 0))))) \<and>
   0 \<notin> set (waiters (snd (Stop 0 (snd (NewTimer 10 (NewFakeClock 0)))))) \<and>
   0 \<in> set (waiters (exec (CallReset 0 0) (snd (NewTimer 10 (NewFakeClock 0))))) \<and>
   0 \<in> set (waiters (exec (CallC 0) (snd (NewTimer 10 (NewFakeClock 0))))) \<and>
   0 \<in> set (waiters (exec (CallRecv 0) (snd (NewTimer 10 (NewFakeClock 0))))) \<and>
   0 \<in> set (waiters (exec (CallAfter 0) (snd (NewTimer 10 (NewFakeClock 0))))) \<and>
   0 \<in> set (waiters (exec (CallStop 1) (snd (NewTimer 10 (NewFakeClock 0))))) \<and>
   0 \<in> set (waiters (exec (CallAdvance 9) (snd (NewTimer 10 (NewFakeClock 0))))) \<and>
   0 \<notin> set (waiters (exec (CallAdvance 10) (snd (NewTimer 10 (NewFakeClock 0))))) \<and>
   0 \<notin> set (waiters (exec (CallStop 0) (snd (NewTimer 10 (NewFakeClock 0)))))"
proof -
  let ?fc1 = "snd (NewTimer 10 (NewFakeClock 0))"
  have w0: "wf_clock (NewFakeClock 0)" by (simp add: wf_clock_def NewFakeClock_def)
  have w: "wf_clock ?fc1"
    using timer_waiter_removal [OF w0, where ?d0.0 = 10 and d = 0 and c = "CallC 0", THEN conjunct1]
    by (simp split: prod.splits)
  have a: "0 \<in> set (waiters ?fc1)"
    by (simp add: eval_defs)
  have t: "timeout (heap ?fc1 ! 0) = 10"
    by (simp add: eval_defs)
  note T = timer_waiter_removal [OF w, THEN conjunct2, rule_format, OF a]
  from T [of 3 "CallReset 0 0"] T [of 10 "CallC 0"] T [of 0 "CallRecv 0"] T [of 0 "CallAfter 0"]
       T [of 0 "CallStop 1"] T [of 0 "CallAdvance 9"] T [of 0 "CallAdvance 10"] T [of 0 "CallStop 0"]
  show ?thesis using w a by (simp add: t)
qed

text \<open>
  C3 (the code departs from it): a timer of 10 is fired by \<open>Advance 10\<close>, \<open>Stop\<close> returns
  true, the channel is drained, the timer is reset to 5 and the clock advanced by 5.
  \<open>Reset\<close> has written the waiter's remaining duration, but the waiter left the
  collection when it fired, so the last \<open>Advance\<close> passes it by: the channel stays empty
  and the remaining duration stays 5.
\<close>

theorem Reset_after_fire_never_fires:
  "(let (h, fc1) = NewTimer 10 (NewFakeClock 0);
        fc2 = Advance 10 fc1;
        (fired, fc3) = Stop h fc2;
        fc4 = Recv h fc3;
        fc5 = Reset h 5 fc4;
        fc6 = Advance 5 fc5
    in fired \<and> chan_buf (notifyCh (heap fc2 ! h)) = [0] \<and> chan_buf (notifyCh (heap fc4 ! h)) = [] \<and>
       timeout (heap fc5 ! h) = 5 \<and> h \<notin> set (waiters fc5) \<and>
       chan_buf (notifyCh (heap fc6 ! h)) = [] \<and> timeout (heap fc6 ! h) = 5)"
  by (simp add: eval_defs)

text \<open>
  C5: \<open>Stop\<close> returns true exactly when the waiter's remaining duration is 0 at the call;
  it removes the waiter from the collection and only that waiter, and touches no waiter
  object. For a handle of an allocated waiter, whatever calls follow, the waiter is never
  in the collection again and no \<open>Advance\<close> writes to it (neither its channel nor its
  remaining duration).
\<close>

theorem Stop_removes_and_reports:
  "fst (Stop a fc) = (timeout (heap fc ! a) = 0) \<and>
   waiters (snd (Stop a fc)) = filter (\<lambda>w. w \<noteq> a) (waiters fc) \<and>
   a \<notin> set (waiters (snd (Stop a fc))) \<and>
   heap (snd (Stop a fc)) = heap fc \<and>
   (a < length (heap fc) \<longrightarrow>
      a \<notin> set (waiters (run cs (snd (Stop a fc)))) \<and>
      heap (Advance d (run cs (snd (Stop a fc)))) ! a = heap (run cs (snd (Stop a fc))) ! a)"
proof (intro conjI impI)
  show "fst (Stop a fc) = (timeout (heap fc ! a) = 0)" by (simp add: Stop_def)
  show "waiters (snd (Stop a fc)) = filter (\<lambda>w. w \<noteq> a) (waiters fc)" by (rule Stop_waiters)
  show n: "a \<notin> set (waiters (snd (Stop a fc)))" by (simp add: Stop_waiters)
  show "heap (snd (Stop a fc)) = heap fc" by (rule Stop_heap)
  assume "a < length (heap fc)"
  then have "a < length (heap (snd (Stop a fc)))" by (simp add: Stop_heap)
  from run_stopped [OF this n, of cs]
  show r: "a \<notin> set (waiters (run cs (snd (Stop a fc))))" by simp
  from Advance_heap_other [OF r]
  show "heap (Advance d (run cs (snd (Stop a fc)))) ! a = heap (run cs (snd (Stop a fc))) ! a" .
qed

theorem Stop_removes_and_reports_witness:
  "(1::nat) < length (heap (run [CallAfter 10, CallNewTimer 10] (NewFakeClock 0))) \<and>
   fst (Stop 1 (run [CallAfter 10, CallNewTimer 10] (NewFakeClock 0))) = False \<and>
   waiters (snd (Stop 1 (run [CallAfter 10, CallNewTimer 10] (NewFakeClock 0)))) = [0] \<and>
   1 \<notin> set (waiters (run [CallAfter 4, CallReset 1 3] (snd (Stop 1 (run [CallAfter 10, CallNewTimer 10] (NewFakeClock 0)))))) \<and>
   heap (Advance 10 (run [CallAfter 4, CallReset 1 3] (snd (Stop 1 (run [CallAfter 10, CallNewTimer 10] (NewFakeClock 0)))))) ! 1
     = heap (run [CallAfter 4, CallReset 1 3] (snd (Stop 1 (run [CallAfter 10, CallNewTimer 10] (NewFakeClock 0))))) ! 1"
proof -
  have l: "(1::nat) < length (heap (run [CallAfter 10, CallNewTimer 10] (NewFakeClock 0)))"
    by (simp add: eval_defs)
  have t: "timeout (heap (run [CallAfter 10, CallNewTimer 10] (NewFakeClock 0)) ! 1) = 10"
    by (simp add: eval_defs)
  have f: "filter (\<lambda>w. w \<noteq> 1) (waiters (run [CallAfter 10, CallNewTimer 10] (NewFakeClock 0))) = [0]"
    by (simp add: eval_defs)
  from Stop_removes_and_reports [of 1 "run [CallAfter 10, CallNewTimer 10] (NewFakeClock 0)"
       "[CallAfter 4, CallReset 1 3]" 10]
  show ?thesis using l by (simp only: t f) simp
qed

subsection \<open>What Advance does to each waiter\<close>

text \<open>Two waiters registered one after the other by \<open>After\<close>.\<close>

lemma two_After:
  assumes w: "wf_clock fc"
  shows "case After d1 fc of (c1, fc1) \<Rightarrow> case After d2 fc1 of (c2, fc2) \<Rightarrow>
     wf_clock fc2 \<and> c1 \<in> set (waiters fc2) \<and> c2 \<in> set (waiters fc2) \<and> c1 \<noteq> c2 \<and>
     heap fc2 ! c1 = makeWaiter d1 True \<and> heap fc2 ! c2 = makeWaiter d2 True \<and>
     curTime fc2 = curTime fc"
proof -
  have "wf_clock (snd (After d2 (snd (After d1 fc))))"
    using After_wf [OF After_wf [OF w]] .
  then show ?thesis
    by (simp add: After_def Let_def nth_append)
qed

lemma fired_fresh:
  "chan_buf (notifyCh ((makeWaiter d cw)\<lparr>timeout := 0, notifyCh := try_send (notifyCh (makeWaiter d cw)) t\<rparr>)) = [t]"
  by (simp add: makeWaiter_def make_chan_def try_send_def)

text \<open>No wrap-around when a later, longer timeout is advanced by a non-negative shorter one.\<close>

lemma armed_after: "0 \<le>s (d1::duration) \<Longrightarrow> d1 <s d2 \<Longrightarrow> 0 <s d2 - d1"
proof -
  assume a: "0 \<le>s d1" and b: "d1 <s d2"
  from a have a': "0 \<le> sint d1" by (simp add: word_sle_eq)
  from b have b': "sint d1 < sint d2" by (simp add: word_sless_alt)
  have u: "sint d2 < 2 ^ 63" using sint_lt [of d2] by simp
  have "sint (d2 - d1) = signed_take_bit 63 (sint d2 - sint d1)"
    by (simp add: sint_word_ariths)
  also have "\<dots> = sint d2 - sint d1"
    using a' b' u by (intro signed_take_bit_int_eq_self) auto
  finally show ?thesis using b' by (simp add: word_sless_alt)
qed

text \<open>
  In \<open>Advance d\<close>, a live waiter whose remaining duration is at most \<open>d\<close> gets remaining
  duration 0 and a non-blocking send, on its channel, of the field \<open>curTime\<close>, which is
  what \<open>Now\<close> reports before and after the call; a live waiter whose remaining duration
  is greater than \<open>d\<close> has it decremented by \<open>d\<close> and stays in the collection. For two
  waiters registered by \<open>After d1\<close> and \<open>After d2\<close> with \<open>d1 < d2\<close>: advancing by \<open>d1\<close>
  fires the first and leaves the second in the collection, with an empty channel and
  remaining duration \<open>d2 - d1\<close> (positive when \<open>d1\<close> is not negative); advancing by \<open>d2\<close>
  fires both.
\<close>

lemma Advance_each_waiter:
  "wf_clock fc \<Longrightarrow>
   (\<forall>a \<in> set (waiters fc).
      (timeout (heap fc ! a) \<le>s d \<longrightarrow>
         heap (Advance d fc) ! a =
           (heap fc ! a)\<lparr>timeout := 0,
                         notifyCh := try_send (notifyCh (heap fc ! a)) (Now (Advance d fc))\<rparr>) \<and>
      (\<not> timeout (heap fc ! a) \<le>s d \<longrightarrow>
         heap (Advance d fc) ! a = (heap fc ! a)\<lparr>timeout := timeout (heap fc ! a) - d\<rparr> \<and>
         a \<in> set (waiters (Advance d fc)))) \<and>
   (d1 <s d2 \<longrightarrow>
      (case After d1 fc of (c1, fc1) \<Rightarrow> case After d2 fc1 of (c2, fc2) \<Rightarrow>
         chan_buf (notifyCh (heap (Advance d1 fc2) ! c1)) = [Now (Advance d1 fc2)] \<and>
         timeout (heap (Advance d1 fc2) ! c1) = 0 \<and>
         chan_buf (notifyCh (heap (Advance d1 fc2) ! c2)) = [] \<and>
         timeout (heap (Advance d1 fc2) ! c2) = d2 - d1 \<and>
         c2 \<in> set (waiters (Advance d1 fc2)) \<and>
         (0 \<le>s d1 \<longrightarrow> 0 <s timeout (heap (Advance d1 fc2) ! c2)) \<and>
         chan_buf (notifyCh (heap (Advance d2 fc2) ! c1)) = [Now (Advance d2 fc2)] \<and>
         chan_buf (notifyCh (heap (Advance d2 fc2) ! c2)) = [Now (Advance d2 fc2)]))"
proof (intro conjI ballI impI)
  fix a assume w: "wf_clock fc" and a: "a \<in> set (waiters fc)"
  { assume "timeout (heap fc ! a) \<le>s d"
    then show "heap (Advance d fc) ! a =
           (heap fc ! a)\<lparr>timeout := 0,
                         notifyCh := try_send (notifyCh (heap fc ! a)) (Now (Advance d fc))\<rparr>"
      by (simp add: Advance_heap_live [OF w a] Now_def Advance_curTime) }
  { assume n: "\<not> timeout (heap fc ! a) \<le>s d"
    then show "heap (Advance d fc) ! a = (heap fc ! a)\<lparr>timeout := timeout (heap fc ! a) - d\<rparr>"
      by (simp add: Advance_heap_live [OF w a])
    from n a show "a \<in> set (waiters (Advance d fc))"
      by (simp add: Advance_waiters [OF w]) }
next
  assume w: "wf_clock fc" and lt: "d1 <s d2"
  obtain c1 fc1 where A1: "After d1 fc = (c1, fc1)" by (cases "After d1 fc")
  obtain c2 fc2 where A2: "After d2 fc1 = (c2, fc2)" by (cases "After d2 fc1")
  from two_After [OF w, of d1 d2] A1 A2
  have w2: "wf_clock fc2" and i1: "c1 \<in> set (waiters fc2)" and i2: "c2 \<in> set (waiters fc2)"
    and h1: "heap fc2 ! c1 = makeWaiter d1 True" and h2: "heap fc2 ! c2 = makeWaiter d2 True"
    by simp_all
  have t1: "timeout (makeWaiter d1 True) = d1" and t2: "timeout (makeWaiter d2 True) = d2"
    by (simp_all add: makeWaiter_def)
  from lt have n21: "\<not> d2 \<le>s d1" and l12: "d1 \<le>s d2" by auto
  have "chan_buf (notifyCh (heap (Advance d1 fc2) ! c1)) = [Now (Advance d1 fc2)] \<and>
         timeout (heap (Advance d1 fc2) ! c1) = 0 \<and>
         chan_buf (notifyCh (heap (Advance d1 fc2) ! c2)) = [] \<and>
         timeout (heap (Advance d1 fc2) ! c2) = d2 - d1 \<and>
         c2 \<in> set (waiters (Advance d1 fc2)) \<and>
         (0 \<le>s d1 \<longrightarrow> 0 <s timeout (heap (Advance d1 fc2) ! c2)) \<and>
         chan_buf (notifyCh (heap (Advance d2 fc2) ! c1)) = [Now (Advance d2 fc2)] \<and>
         chan_buf (notifyCh (heap (Advance d2 fc2) ! c2)) = [Now (Advance d2 fc2)]"
    using i2 n21 l12
    by (simp add: Advance_heap_live [OF w2 i1] Advance_heap_live [OF w2 i2] Advance_waiters [OF w2]
        h1 h2 t1 t2 fired_fresh Now_def Advance_curTime armed_after [OF _ lt])
       (simp add: makeWaiter_def make_chan_def try_send_def)
  then show "case After d1 fc of (c1, fc1) \<Rightarrow> case After d2 fc1 of (c2, fc2) \<Rightarrow>
         chan_buf (notifyCh (heap (Advance d1 fc2) ! c1)) = [Now (Advance d1 fc2)] \<and>
         timeout (heap (Advance d1 fc2) ! c1) = 0 \<and>
         chan_buf (notifyCh (heap (Advance d1 fc2) ! c2)) = [] \<and>
         timeout (heap (Advance d1 fc2) ! c2) = d2 - d1 \<and>
         c2 \<in> set (waiters (Advance d1 fc2)) \<and>
         (0 \<le>s d1 \<longrightarrow> 0 <s timeout (heap (Advance d1 fc2) ! c2)) \<and>
         chan_buf (notifyCh (heap (Advance d2 fc2) ! c1)) = [Now (Advance d2 fc2)] \<and>
         chan_buf (notifyCh (heap (Advance d2 fc2) ! c2)) = [Now (Advance d2 fc2)]"
    unfolding A1 A2 prod.case .
qed

lemma Advance_each_waiter_example:
  "wf_clock (NewFakeClock 0) \<and> (10::duration) <s 11 \<and>
   set (waiters (snd (After 11 (snd (After 10 (NewFakeClock 0)))))) = {0, 1} \<and>
   heap (Advance 10 (snd (After 11 (snd (After 10 (NewFakeClock 0)))))) ! 0 =
     \<lparr>timeout = 0, notifyCh = \<lparr>chan_buf = [0], chan_cap = 1\<rparr>, consumerWaiting = True\<rparr> \<and>
   heap (Advance 10 (snd (After 11 (snd (After 10 (NewFakeClock 0)))))) ! 1 =
     \<lparr>timeout = 1, notifyCh = \<lparr>chan_buf = [], chan_cap = 1\<rparr>, consumerWaiting = True\<rparr> \<and>
   1 \<in> set (waiters (Advance 10 (snd (After 11 (snd (After 10 (NewFakeClock 0))))))) \<and>
   chan_buf (notifyCh (heap (Advance 11 (snd (After 11 (snd (After 10 (NewFakeClock 0)))))) ! 0)) = [0] \<and>
   chan_buf (notifyCh (heap (Advance 11 (snd (After 11 (snd (After 10 (NewFakeClock 0)))))) ! 1)) = [0]"
proof -
  let ?fc2 = "snd (After 11 (snd (After 10 (NewFakeClock 0))))"
  have w0: "wf_clock (NewFakeClock 0)" by (simp add: wf_clock_def NewFakeClock_def)
  have w2: "wf_clock ?fc2" by (simp add: wf_clock_def eval_defs)
  have lt: "(10::duration) <s 11" by simp
  have s: "set (waiters ?fc2) = {0, 1}" by (auto simp: eval_defs)
  have h0: "heap ?fc2 ! 0 = \<lparr>timeout = 10, notifyCh = \<lparr>chan_buf = [], chan_cap = 1\<rparr>, consumerWaiting = True\<rparr>"
    by (simp add: eval_defs)
  have m0: "0 \<in> set (waiters ?fc2)" and m1: "Suc 0 \<in> set (waiters ?fc2)"
    by (simp_all add: eval_defs)
  have h1: "heap ?fc2 ! Suc 0 = \<lparr>timeout = 11, notifyCh = \<lparr>chan_buf = [], chan_cap = 1\<rparr>, consumerWaiting = True\<rparr>"
    by (simp add: eval_defs)
  have n: "Now (Advance 10 ?fc2) = 0" "Now (Advance 11 ?fc2) = 0"
    by (simp_all add: Now_def Advance_curTime) (simp_all add: eval_defs)
  have a1: "fst (After 10 (NewFakeClock 0)) = 0"
    and a2: "fst (After 11 (snd (After 10 (NewFakeClock 0)))) = Suc 0"
    by (simp_all add: eval_defs)
  note each = Advance_each_waiter [OF w2, of 10, THEN conjunct1, THEN bspec]
  from each [OF m0] each [OF m1]
  have g: "heap (Advance 10 ?fc2) ! 0 =
     \<lparr>timeout = 0, notifyCh = \<lparr>chan_buf = [0], chan_cap = 1\<rparr>, consumerWaiting = True\<rparr> \<and>
     heap (Advance 10 ?fc2) ! 1 =
     \<lparr>timeout = 1, notifyCh = \<lparr>chan_buf = [], chan_cap = 1\<rparr>, consumerWaiting = True\<rparr> \<and>
     1 \<in> set (waiters (Advance 10 ?fc2))"
    by (simp add: h0 h1 n try_send_def)
  from Advance_each_waiter [OF w0, of 0 10 11, THEN conjunct2]
  have p: "chan_buf (notifyCh (heap (Advance 11 ?fc2) ! 0)) = [0] \<and>
           chan_buf (notifyCh (heap (Advance 11 ?fc2) ! 1)) = [0]"
    by (simp add: case_prod_beta a1 a2 n)
  from w0 lt s g p show ?thesis by simp
qed

text \<open>
  C4 (the code departs from it): the instant sent to a fired waiter should be the current
  time after the advance. On a clock created at instant 0, a waiter registered by
  \<open>After 10\<close> and fired by \<open>Advance 10\<close> receives 0, the time before the advance, where
  that time plus 10 is 10. The rest of C4 (who is fired, the decrement, the two
  \<open>After\<close> waiters) is as \<open>Advance_each_waiter\<close> states it.
\<close>

theorem Advance_sends_stale_instant:
  "chan_buf (notifyCh (heap (Advance 10 (snd (After 10 (NewFakeClock 0)))) ! 0)) = [0] \<and>
   timeout (heap (Advance 10 (snd (After 10 (NewFakeClock 0)))) ! 0) = 0 \<and>
   Now (Advance 10 (snd (After 10 (NewFakeClock 0)))) = 0 \<and>
   time_Add (Now (snd (After 10 (NewFakeClock 0)))) 10 = 10"
  by (simp add: eval_defs time_Add_def)

text \<open>
  C8: \<open>Advance 0\<close> fires the live waiters whose remaining duration is at most 0 (remaining
  duration 0, a non-blocking send of the current time, and out of the collection) and
  changes nothing else: the other waiter objects, the live waiters that stay, and the
  current time are as before. A waiter registered with duration 0, by \<open>After\<close> or by
  \<open>NewTimer\<close>, has its notification on its channel after the next \<open>Advance d\<close> with
  \<open>d\<close> positive.
\<close>

theorem Advance_zero:
  "wf_clock fc \<Longrightarrow>
   curTime (Advance 0 fc) = curTime fc \<and>
   length (heap (Advance 0 fc)) = length (heap fc) \<and>
   waiters (Advance 0 fc) = filter (\<lambda>a. \<not> timeout (heap fc ! a) \<le>s 0) (waiters fc) \<and>
   (\<forall>a. heap (Advance 0 fc) ! a =
      (if a \<in> set (waiters fc) \<and> timeout (heap fc ! a) \<le>s 0
       then (heap fc ! a)\<lparr>timeout := 0, notifyCh := try_send (notifyCh (heap fc ! a)) (curTime fc)\<rparr>
       else heap fc ! a)) \<and>
   (0 <s d \<longrightarrow>
      (case After 0 fc of (c, fc1) \<Rightarrow>
         chan_buf (notifyCh (heap fc1 ! c)) = [] \<and>
         chan_buf (notifyCh (heap (Advance d fc1) ! c)) = [Now (Advance d fc1)]) \<and>
      (case NewTimer 0 fc of (h, fc1) \<Rightarrow>
         chan_buf (notifyCh (heap fc1 ! h)) = [] \<and>
         chan_buf (notifyCh (heap (Advance d fc1) ! h)) = [Now (Advance d fc1)]))"
proof (intro conjI allI impI)
  assume w: "wf_clock fc"
  show "curTime (Advance 0 fc) = curTime fc" by (rule Advance_curTime)
  show "length (heap (Advance 0 fc)) = length (heap fc)" by (rule Advance_heap_length)
  show "waiters (Advance 0 fc) = filter (\<lambda>a. \<not> timeout (heap fc ! a) \<le>s 0) (waiters fc)"
    by (rule Advance_waiters [OF w])
  fix a
  show "heap (Advance 0 fc) ! a =
      (if a \<in> set (waiters fc) \<and> timeout (heap fc ! a) \<le>s 0
       then (heap fc ! a)\<lparr>timeout := 0, notifyCh := try_send (notifyCh (heap fc ! a)) (curTime fc)\<rparr>
       else heap fc ! a)"
  proof (cases "a \<in> set (waiters fc)")
    case True
    then show ?thesis by (simp add: Advance_heap_live [OF w True])
  next
    case False
    then show ?thesis by (simp add: Advance_heap_other)
  qed
next
  assume w: "wf_clock fc" and d: "0 <s d"
  from d have le: "0 \<le>s d" by auto
  have w1: "wf_clock (snd (After 0 fc))" by (rule After_wf [OF w])
  have i1: "length (heap fc) \<in> set (waiters (snd (After 0 fc)))" by (simp add: After_def Let_def)
  have h1: "heap (snd (After 0 fc)) ! length (heap fc) = makeWaiter 0 True"
    by (simp add: After_def Let_def)
  have "chan_buf (notifyCh (heap (Advance d (snd (After 0 fc))) ! length (heap fc)))
      = [Now (Advance d (snd (After 0 fc)))]"
    using le by (simp add: Advance_heap_live [OF w1 i1] h1 Now_def Advance_curTime)
      (simp add: makeWaiter_def make_chan_def try_send_def)
  then show "case After 0 fc of (c, fc1) \<Rightarrow>
         chan_buf (notifyCh (heap fc1 ! c)) = [] \<and>
         chan_buf (notifyCh (heap (Advance d fc1) ! c)) = [Now (Advance d fc1)]"
    by (simp add: After_def Let_def makeWaiter_def make_chan_def)
next
  assume w: "wf_clock fc" and d: "0 <s d"
  from d have le: "0 \<le>s d" by auto
  have w1: "wf_clock (snd (NewTimer 0 fc))" by (rule NewTimer_wf [OF w])
  have i1: "length (heap fc) \<in> set (waiters (snd (NewTimer 0 fc)))" by (simp add: NewTimer_def Let_def)
  have h1: "heap (snd (NewTimer 0 fc)) ! length (heap fc) = makeWaiter 0 False"
    by (simp add: NewTimer_def Let_def)
  have "chan_buf (notifyCh (heap (Advance d (snd (NewTimer 0 fc))) ! length (heap fc)))
      = [Now (Advance d (snd (NewTimer 0 fc)))]"
    using le by (simp add: Advance_heap_live [OF w1 i1] h1 Now_def Advance_curTime)
      (simp add: makeWaiter_def make_chan_def try_send_def)
  then show "case NewTimer 0 fc of (h, fc1) \<Rightarrow>
         chan_buf (notifyCh (heap fc1 ! h)) = [] \<and>
         chan_buf (notifyCh (heap (Advance d fc1) ! h)) = [Now (Advance d fc1)]"
    by (simp add: NewTimer_def Let_def makeWaiter_def make_chan_def)
qed

theorem Advance_zero_witness:
  "wf_clock (snd (After 5 (snd (After 0 (NewFakeClock 3))))) \<and> (0::duration) <s 4 \<and>
   waiters (Advance 0 (snd (After 5 (snd (After 0 (NewFakeClock 3)))))) = [1] \<and>
   heap (Advance 0 (snd (After 5 (snd (After 0 (NewFakeClock 3)))))) ! 0 =
     \<lparr>timeout = 0, notifyCh = \<lparr>chan_buf = [3], chan_cap = 1\<rparr>, consumerWaiting = True\<rparr> \<and>
   heap (Advance 0 (snd (After 5 (snd (After 0 (NewFakeClock 3)))))) ! 1 =
     \<lparr>timeout = 5, notifyCh = \<lparr>chan_buf = [], chan_cap = 1\<rparr>, consumerWaiting = True\<rparr> \<and>
   chan_buf (notifyCh (heap (Advance 4 (snd (After 0 (snd (After 5 (snd (After 0 (NewFakeClock 3)))))))) ! 2)) = [3]"
proof -
  let ?fc = "snd (After 5 (snd (After 0 (NewFakeClock 3))))"
  have w: "wf_clock ?fc" by (simp add: wf_clock_def eval_defs)
  have lt: "(0::duration) <s 4" by (simp add: word_sless_alt)
  have ws: "waiters ?fc = [0, Suc 0]" by (simp add: eval_defs)
  have h0: "heap ?fc ! 0 = \<lparr>timeout = 0, notifyCh = \<lparr>chan_buf = [], chan_cap = 1\<rparr>, consumerWaiting = True\<rparr>"
    by (simp add: eval_defs)
  have h1: "heap ?fc ! Suc 0 = \<lparr>timeout = 5, notifyCh = \<lparr>chan_buf = [], chan_cap = 1\<rparr>, consumerWaiting = True\<rparr>"
    by (simp add: eval_defs)
  have c: "curTime ?fc = 3" by (simp add: eval_defs)
  have a: "fst (After 0 ?fc) = 2" by (simp add: eval_defs)
  have n: "Now (Advance 4 (snd (After 0 ?fc))) = 3"
    by (simp add: Now_def Advance_curTime) (simp add: eval_defs)
  note z = Advance_zero [OF w, of 4]
  note zw = z [THEN conjunct2, THEN conjunct2, THEN conjunct1]
  note zh = z [THEN conjunct2, THEN conjunct2, THEN conjunct2, THEN conjunct1, THEN spec]
  note zr = z [THEN conjunct2, THEN conjunct2, THEN conjunct2, THEN conjunct2, THEN mp, OF lt, THEN conjunct1]
  from zw have "waiters (Advance 0 ?fc) = [1]" by (simp add: ws h0 h1 word_sle_eq)
  moreover from zh [of 0] have "heap (Advance 0 ?fc) ! 0 =
     \<lparr>timeout = 0, notifyCh = \<lparr>chan_buf = [3], chan_cap = 1\<rparr>, consumerWaiting = True\<rparr>"
    by (simp add: ws h0 c try_send_def)
  moreover from zh [of "Suc 0"] have "heap (Advance 0 ?fc) ! Suc 0 =
     \<lparr>timeout = 5, notifyCh = \<lparr>chan_buf = [], chan_cap = 1\<rparr>, consumerWaiting = True\<rparr>"
    by (simp add: ws h1 word_sle_eq)
  moreover from zr have "chan_buf (notifyCh (heap (Advance 4 (snd (After 0 ?fc))) ! 2)) = [3]"
    by (simp add: case_prod_beta a n)
  ultimately show ?thesis using w lt by simp
qed

subsection \<open>The notification slot\<close>

lemma try_send_slot:
  "chan_cap c = 1 \<and> length (chan_buf c) \<le> 1 \<Longrightarrow>
   chan_cap (try_send c v) = 1 \<and> length (chan_buf (try_send c v)) \<le> 1"
  by (simp add: try_send_def)

lemma Advance_loop_slots:
  "\<forall>w \<in> set h. chan_cap (notifyCh w) = 1 \<and> length (chan_buf (notifyCh w)) \<le> 1 \<Longrightarrow>
   \<forall>w \<in> set (fst (Advance_loop d now as h act)).
      chan_cap (notifyCh w) = 1 \<and> length (chan_buf (notifyCh w)) \<le> 1"
proof (induction as arbitrary: h act)
  case Nil then show ?case by simp
next
  case (Cons a as)
  let ?P = "\<lambda>w. chan_cap (notifyCh w) = 1 \<and> length (chan_buf (notifyCh w)) \<le> 1"
  have upd: "\<forall>w \<in> set (h[a := w']). ?P w" if "a < length h \<longrightarrow> ?P w'" for w'
  proof (cases "a < length h")
    case True
    with that Cons.prems show ?thesis using set_update_subset_insert [of h a w'] by auto
  next
    case False
    with Cons.prems show ?thesis by (simp add: list_update_beyond)
  qed
  have here: "a < length h \<longrightarrow> ?P (h ! a)" using Cons.prems by simp
  show ?case
  proof (cases "timeout (h ! a) \<le>s d")
    case True
    have "\<forall>w \<in> set (h[a := (h ! a)\<lparr>timeout := 0, notifyCh := try_send (notifyCh (h ! a)) now\<rparr>]). ?P w"
      using here by (intro upd) (simp add: try_send_def)
    from Cons.IH [OF this] True show ?thesis by (simp add: Let_def)
  next
    case False
    have "\<forall>w \<in> set (h[a := (h ! a)\<lparr>timeout := timeout (h ! a) - d\<rparr>]). ?P w"
      using here by (intro upd) auto
    from Cons.IH [OF this] False show ?thesis by (simp add: Let_def)
  qed
qed

lemma update_slots:
  "slots_ok fc \<Longrightarrow> (a < length (heap fc) \<Longrightarrow> chan_cap (notifyCh w) = 1 \<and> length (chan_buf (notifyCh w)) \<le> 1) \<Longrightarrow>
   slots_ok (fc\<lparr>heap := (heap fc)[a := w]\<rparr>)"
proof (cases "a < length (heap fc)")
  case True
  assume "slots_ok fc" "a < length (heap fc) \<Longrightarrow> chan_cap (notifyCh w) = 1 \<and> length (chan_buf (notifyCh w)) \<le> 1"
  with True show ?thesis using set_update_subset_insert [of "heap fc" a w]
    by (auto simp: slots_ok_def)
next
  case False
  assume "slots_ok fc"
  with False show ?thesis by (simp add: slots_ok_def list_update_beyond)
qed

lemma exec_slots_ok: "slots_ok fc \<Longrightarrow> slots_ok (exec c fc)"
proof (cases c)
  case (CallAdvance d)
  assume "slots_ok fc"
  then show ?thesis using CallAdvance
      Advance_loop_slots [of "heap fc" d "curTime fc" "waiters fc" "[]"]
    by (simp add: slots_ok_def Advance_heap_eq)
next
  case (CallC a)
  assume s: "slots_ok fc"
  show ?thesis unfolding CallC exec.simps C_def
    using s by (intro update_slots) (auto simp: slots_ok_def)
next
  case (CallReset a d)
  assume s: "slots_ok fc"
  show ?thesis unfolding CallReset exec.simps Reset_def
    using s by (intro update_slots) (auto simp: slots_ok_def)
next
  case (CallRecv a)
  assume s: "slots_ok fc"
  show ?thesis unfolding CallRecv exec.simps Recv_def
    using s by (intro update_slots) (auto simp: slots_ok_def chan_recv_def)
qed (auto simp: slots_ok_def After_def NewTimer_def Stop_def makeWaiter_def make_chan_def Let_def)

lemma run_slots_ok: "slots_ok fc \<Longrightarrow> slots_ok (run cs fc)"
  by (induction cs arbitrary: fc) (simp_all add: exec_slots_ok)

text \<open>
  C6: on every clock reached from \<open>NewFakeClock\<close>, each waiter's channel has capacity 1
  and holds at most one value. When \<open>Advance\<close> fires a waiter whose channel already holds
  a value, the channel is left as it is: the new instant is dropped, the old one is neither
  replaced nor followed by a second. After an \<open>Advance\<close> that fires a waiter the channel
  holds exactly one value, and a second \<open>Advance\<close> right after it leaves the channel
  as it is.
\<close>

theorem slot_holds_one:
  "slots_ok (run cs (NewFakeClock t)) \<and>
   (wf_clock fc \<and> a \<in> set (waiters fc) \<and> timeout (heap fc ! a) \<le>s d \<and>
    chan_cap (notifyCh (heap fc ! a)) = 1 \<and> chan_buf (notifyCh (heap fc ! a)) = [v]
    \<longrightarrow> notifyCh (heap (Advance d fc) ! a) = notifyCh (heap fc ! a)) \<and>
   (wf_clock fc \<and> slots_ok fc \<and> a \<in> set (waiters fc) \<and> timeout (heap fc ! a) \<le>s d1
    \<longrightarrow> length (chan_buf (notifyCh (heap (Advance d1 fc) ! a))) = 1 \<and>
        notifyCh (heap (Advance d2 (Advance d1 fc)) ! a) = notifyCh (heap (Advance d1 fc) ! a))"
proof (intro conjI impI)
  have "slots_ok (NewFakeClock t)" by (simp add: slots_ok_def NewFakeClock_def)
  then show "slots_ok (run cs (NewFakeClock t))" by (rule run_slots_ok)
next
  assume "wf_clock fc \<and> a \<in> set (waiters fc) \<and> timeout (heap fc ! a) \<le>s d \<and>
    chan_cap (notifyCh (heap fc ! a)) = 1 \<and> chan_buf (notifyCh (heap fc ! a)) = [v]"
  then show "notifyCh (heap (Advance d fc) ! a) = notifyCh (heap fc ! a)"
    by (simp add: Advance_heap_live try_send_def)
next
  assume h: "wf_clock fc \<and> slots_ok fc \<and> a \<in> set (waiters fc) \<and> timeout (heap fc ! a) \<le>s d1"
  then have w: "wf_clock fc" and a: "a \<in> set (waiters fc)" and f: "timeout (heap fc ! a) \<le>s d1"
    by simp_all
  from w a have "heap fc ! a \<in> set (heap fc)" by (simp add: wf_clock_def)
  with h have s: "chan_cap (notifyCh (heap fc ! a)) = 1" "length (chan_buf (notifyCh (heap fc ! a))) \<le> 1"
    by (auto simp: slots_ok_def)
  show "length (chan_buf (notifyCh (heap (Advance d1 fc) ! a))) = 1"
    using s f by (cases "chan_buf (notifyCh (heap fc ! a))")
      (simp_all add: Advance_heap_live [OF w a] try_send_def)
  from f a have "a \<notin> set (waiters (Advance d1 fc))" by (simp add: Advance_waiters [OF w])
  then show "notifyCh (heap (Advance d2 (Advance d1 fc)) ! a) = notifyCh (heap (Advance d1 fc) ! a)"
    by (simp add: Advance_heap_other)
qed

theorem slot_holds_one_witness:
  "slots_ok (run [CallAfter 5, CallAdvance 5, CallAdvance 5] (NewFakeClock 2)) \<and>
   heap (run [CallAfter 5, CallAdvance 5, CallAdvance 5] (NewFakeClock 2)) =
     [\<lparr>timeout = 0, notifyCh = \<lparr>chan_buf = [2], chan_cap = 1\<rparr>, consumerWaiting = True\<rparr>] \<and>
   notifyCh (heap (Advance 0
       \<lparr>heap = [\<lparr>timeout = 0, notifyCh = \<lparr>chan_buf = [3], chan_cap = 1\<rparr>, consumerWaiting = True\<rparr>],
        waiters = [0], curTime = 7\<rparr>) ! 0) = \<lparr>chan_buf = [3], chan_cap = 1\<rparr> \<and>
   chan_buf (notifyCh (heap (Advance 5 (Advance 5 (snd (After 5 (NewFakeClock 2))))) ! 0)) = [2]"
proof -
  let ?X = "\<lparr>heap = [\<lparr>timeout = 0, notifyCh = \<lparr>chan_buf = [3], chan_cap = 1\<rparr>, consumerWaiting = True\<rparr>],
        waiters = [0], curTime = 7\<rparr>"
  let ?Y = "snd (After 5 (NewFakeClock 2))"
  have wX: "wf_clock ?X" by (simp add: wf_clock_def)
  have wY: "wf_clock ?Y" by (simp add: wf_clock_def eval_defs)
  have sY: "slots_ok ?Y" by (simp add: slots_ok_def eval_defs)
  have hY: "heap ?Y ! 0 = \<lparr>timeout = 5, notifyCh = \<lparr>chan_buf = [], chan_cap = 1\<rparr>, consumerWaiting = True\<rparr>"
    and iY: "0 \<in> set (waiters ?Y)"
    by (simp_all add: eval_defs)
  have first: "chan_buf (notifyCh (heap (Advance 5 ?Y) ! 0)) = [2]"
    by (simp add: eval_defs)
  have h: "heap (run [CallAfter 5, CallAdvance 5, CallAdvance 5] (NewFakeClock 2)) =
     [\<lparr>timeout = 0, notifyCh = \<lparr>chan_buf = [2], chan_cap = 1\<rparr>, consumerWaiting = True\<rparr>]"
    by (simp add: eval_defs)
  note t1 = slot_holds_one [where cs = "[CallAfter 5, CallAdvance 5, CallAdvance 5]" and t = 2
      and fc = ?X and a = 0 and d = 0 and v = 3 and ?d1.0 = 0 and ?d2.0 = 0]
  note t2 = slot_holds_one [where cs = "[]" and t = 2
      and fc = ?Y and a = 0 and d = 0 and v = 3 and ?d1.0 = 5 and ?d2.0 = 5]
  from t1 have a: "slots_ok (run [CallAfter 5, CallAdvance 5, CallAdvance 5] (NewFakeClock 2))"
    by simp
  from t1 wX have b: "notifyCh (heap (Advance 0 ?X) ! 0) = \<lparr>chan_buf = [3], chan_cap = 1\<rparr>"
    by simp
  from t2 wY sY iY have c: "notifyCh (heap (Advance 5 (Advance 5 ?Y)) ! 0) = notifyCh (heap (Advance 5 ?Y) ! 0)"
    by (simp add: hY)
  from a h b c first show ?thesis by simp
qed

subsection \<open>WaitAdvance\<close>

text \<open>A pass succeeds exactly when the running count equals \<open>numWaiters\<close> after some waiter.\<close>

lemma scan_iff:
  "WaitAdvance_scan n h as c \<longleftrightarrow>
   (\<exists>k. 0 < k \<and> k \<le> length as \<and>
        c + int (length (filter (\<lambda>a. consumerWaiting (h ! a)) (take k as))) = n)"
proof (induction as arbitrary: c)
  case Nil then show ?case by simp
next
  case (Cons a as)
  let ?cw = "\<lambda>a. consumerWaiting (h ! a)"
  let ?c = "if ?cw a then c + 1 else c"
  have ex: "(\<exists>k. 0 < k \<and> k \<le> length (a # as) \<and> c + int (length (filter ?cw (take k (a # as)))) = n)
     \<longleftrightarrow> (?c = n \<or> (\<exists>k. 0 < k \<and> k \<le> length as \<and> ?c + int (length (filter ?cw (take k as))) = n))"
    (is "?L \<longleftrightarrow> ?R")
  proof
    assume ?L
    then obtain k where k: "0 < k" "k \<le> length (a # as)"
      "c + int (length (filter ?cw (take k (a # as)))) = n" by blast
    then obtain j where j: "k = Suc j" by (cases k) auto
    show ?R
    proof (cases j)
      case 0
      with k j show ?thesis by auto
    next
      case (Suc i)
      with k j have "0 < j \<and> j \<le> length as \<and> ?c + int (length (filter ?cw (take j as))) = n"
        by auto
      then show ?thesis by blast
    qed
  next
    assume ?R
    then show ?L
    proof
      assume "?c = n"
      then have "0 < Suc 0 \<and> Suc 0 \<le> length (a # as) \<and>
        c + int (length (filter ?cw (take (Suc 0) (a # as)))) = n" by auto
      then show ?L by blast
    next
      assume "\<exists>k. 0 < k \<and> k \<le> length as \<and> ?c + int (length (filter ?cw (take k as))) = n"
      then obtain k where "0 < k" "k \<le> length as" "?c + int (length (filter ?cw (take k as))) = n"
        by blast
      then have "0 < Suc k \<and> Suc k \<le> length (a # as) \<and>
        c + int (length (filter ?cw (take (Suc k) (a # as)))) = n" by auto
      then show ?L by blast
    qed
  qed
  show ?case unfolding ex using Cons.IH [of ?c] by (simp add: Let_def)
qed

lemma scan_reached:
  "WaitAdvance_scan n h as c \<Longrightarrow> n \<le> c + int (length (filter (\<lambda>a. consumerWaiting (h ! a)) as))"
proof (induction as arbitrary: c)
  case Nil then show ?case by simp
next
  case (Cons a as)
  let ?c = "if consumerWaiting (h ! a) then c + 1 else c"
  show ?case
  proof (cases "?c = n")
    case True
    then show ?thesis by auto
  next
    case False
    with Cons.prems have "WaitAdvance_scan n h as ?c" by (simp add: Let_def)
    from Cons.IH [OF this] show ?thesis by auto
  qed
qed

lemma scan_pos:
  "c < n \<Longrightarrow> WaitAdvance_scan n h as c \<longleftrightarrow> n \<le> c + int (length (filter (\<lambda>a. consumerWaiting (h ! a)) as))"
proof (induction as arbitrary: c)
  case Nil then show ?case by simp
next
  case (Cons a as)
  let ?c = "if consumerWaiting (h ! a) then c + 1 else c"
  show ?case
  proof (cases "?c = n")
    case True
    then show ?thesis by (auto simp: Let_def)
  next
    case False
    with Cons.prems have "?c < n" by auto
    from Cons.IH [OF this] False show ?thesis by (auto simp: Let_def)
  qed
qed

lemma run_append: "run (xs @ ys) fc = run ys (run xs fc)"
  by (induction xs arbitrary: fc) simp_all

text \<open>
  \<open>WaitAdvance\<close> returns exactly when some pass succeeds, and then with the clock that
  \<open>Advance\<close> leaves after the first pass that succeeds.
\<close>

lemma WaitAdvance_Some:
  "WaitAdvance n d others fc = Some fc' \<longleftrightarrow>
   (\<exists>k < length others.
      WaitAdvance_pass n (poll_state others k fc) \<and>
      (\<forall>j < k. \<not> WaitAdvance_pass n (poll_state others j fc)) \<and>
      fc' = Advance d (run (others ! k) (poll_state others k fc)))"
proof (induction others arbitrary: fc)
  case Nil then show ?case by simp
next
  case (Cons cs rest)
  have ps0: "poll_state (cs # rest) 0 fc = fc" by (simp add: poll_state_def)
  have psS: "\<And>k. poll_state (cs # rest) (Suc k) fc = poll_state rest k (run cs fc)"
    by (simp add: poll_state_def run_append)
  show ?case
  proof (cases "WaitAdvance_pass n fc")
    case True
    have "(\<exists>k < length (cs # rest).
      WaitAdvance_pass n (poll_state (cs # rest) k fc) \<and>
      (\<forall>j < k. \<not> WaitAdvance_pass n (poll_state (cs # rest) j fc)) \<and>
      fc' = Advance d (run ((cs # rest) ! k) (poll_state (cs # rest) k fc)))
      \<longleftrightarrow> fc' = Advance d (run cs fc)" (is "?L \<longleftrightarrow> ?R")
    proof
      assume ?L
      then obtain k where k: "k < length (cs # rest)"
        "\<forall>j < k. \<not> WaitAdvance_pass n (poll_state (cs # rest) j fc)"
        "fc' = Advance d (run ((cs # rest) ! k) (poll_state (cs # rest) k fc))" by blast
      have "k = 0"
      proof (rule ccontr)
        assume "k \<noteq> 0"
        then have "0 < k" by simp
        with k(2) have "\<not> WaitAdvance_pass n (poll_state (cs # rest) 0 fc)" by blast
        with True ps0 show False by simp
      qed
      with k(3) ps0 show ?R by simp
    next
      assume ?R
      with True ps0 have "0 < length (cs # rest) \<and>
        WaitAdvance_pass n (poll_state (cs # rest) 0 fc) \<and>
        (\<forall>j < 0. \<not> WaitAdvance_pass n (poll_state (cs # rest) j fc)) \<and>
        fc' = Advance d (run ((cs # rest) ! 0) (poll_state (cs # rest) 0 fc))" by simp
      then show ?L by blast
    qed
    with True show ?thesis by auto
  next
    case False
    have "(\<exists>k < length (cs # rest).
      WaitAdvance_pass n (poll_state (cs # rest) k fc) \<and>
      (\<forall>j < k. \<not> WaitAdvance_pass n (poll_state (cs # rest) j fc)) \<and>
      fc' = Advance d (run ((cs # rest) ! k) (poll_state (cs # rest) k fc)))
      \<longleftrightarrow> (\<exists>k < length rest.
      WaitAdvance_pass n (poll_state rest k (run cs fc)) \<and>
      (\<forall>j < k. \<not> WaitAdvance_pass n (poll_state rest j (run cs fc))) \<and>
      fc' = Advance d (run (rest ! k) (poll_state rest k (run cs fc))))" (is "?L \<longleftrightarrow> ?R")
    proof
      assume ?L
      then obtain k where k: "k < length (cs # rest)"
        "WaitAdvance_pass n (poll_state (cs # rest) k fc)"
        "\<forall>j < k. \<not> WaitAdvance_pass n (poll_state (cs # rest) j fc)"
        "fc' = Advance d (run ((cs # rest) ! k) (poll_state (cs # rest) k fc))" by blast
      from k(2) False ps0 obtain i where i: "k = Suc i" by (cases k) auto
      have "\<forall>j < i. \<not> WaitAdvance_pass n (poll_state rest j (run cs fc))"
      proof (intro allI impI)
        fix j assume "j < i"
        then have "Suc j < k" using i by simp
        with k(3) have "\<not> WaitAdvance_pass n (poll_state (cs # rest) (Suc j) fc)" by blast
        then show "\<not> WaitAdvance_pass n (poll_state rest j (run cs fc))" by (simp add: psS)
      qed
      with k i have "i < length rest \<and> WaitAdvance_pass n (poll_state rest i (run cs fc)) \<and>
        (\<forall>j < i. \<not> WaitAdvance_pass n (poll_state rest j (run cs fc))) \<and>
        fc' = Advance d (run (rest ! i) (poll_state rest i (run cs fc)))"
        by (simp add: psS)
      then show ?R by blast
    next
      assume ?R
      then obtain i where i: "i < length rest"
        "WaitAdvance_pass n (poll_state rest i (run cs fc))"
        "\<forall>j < i. \<not> WaitAdvance_pass n (poll_state rest j (run cs fc))"
        "fc' = Advance d (run (rest ! i) (poll_state rest i (run cs fc)))" by blast
      have "\<forall>j < Suc i. \<not> WaitAdvance_pass n (poll_state (cs # rest) j fc)"
      proof (intro allI impI)
        fix j assume j: "j < Suc i"
        show "\<not> WaitAdvance_pass n (poll_state (cs # rest) j fc)"
        proof (cases j)
          case 0
          with False ps0 show ?thesis by simp
        next
          case (Suc m)
          with j i(3) show ?thesis by (simp add: psS)
        qed
      qed
      with i have "Suc i < length (cs # rest) \<and>
        WaitAdvance_pass n (poll_state (cs # rest) (Suc i) fc) \<and>
        (\<forall>j < Suc i. \<not> WaitAdvance_pass n (poll_state (cs # rest) j fc)) \<and>
        fc' = Advance d (run ((cs # rest) ! Suc i) (poll_state (cs # rest) (Suc i) fc))"
        by (simp add: psS)
      then show ?L by blast
    qed
    with False Cons.IH [of "run cs fc"] show ?thesis by simp
  qed
qed

lemma pass_reached: "WaitAdvance_pass n fc \<Longrightarrow> n \<le> int (waitingCount fc)"
  using scan_reached [of n "heap fc" "waiters fc" 0]
  by (simp add: WaitAdvance_pass_def waitingCount_def)

lemma pass_pos: "1 \<le> n \<Longrightarrow> WaitAdvance_pass n fc \<longleftrightarrow> n \<le> int (waitingCount fc)"
  using scan_pos [of 0 n "heap fc" "waiters fc"]
  by (simp add: WaitAdvance_pass_def waitingCount_def)

lemma WaitAdvance_empty:
  "waiters fc = [] \<Longrightarrow> WaitAdvance n d (replicate passes []) fc = None"
  by (induction passes) (simp_all add: WaitAdvance_pass_def)

text \<open>
  \<open>WaitAdvance\<close> returns exactly when the comparison of one of its passes succeeds; it
  then returns the clock after one \<open>Advance d\<close>, called after the first such pass (and
  after what the other goroutines did in between), and no earlier pass succeeded.
  A pass that succeeds has seen at least \<open>numWaiters\<close> live waiters with
  \<open>consumerWaiting\<close> set; for a positive \<open>numWaiters\<close> a pass succeeds exactly when there
  are that many.
\<close>

lemma WaitAdvance_waits_for_threshold:
  "(WaitAdvance n d others fc = Some fc' \<longleftrightarrow>
      (\<exists>k < length others.
         WaitAdvance_pass n (poll_state others k fc) \<and>
         (\<forall>j < k. \<not> WaitAdvance_pass n (poll_state others j fc)) \<and>
         fc' = Advance d (run (others ! k) (poll_state others k fc)))) \<and>
   (WaitAdvance_pass n fc \<longrightarrow> n \<le> int (waitingCount fc)) \<and>
   (1 \<le> n \<longrightarrow> (WaitAdvance_pass n fc \<longleftrightarrow> n \<le> int (waitingCount fc)))"
  using WaitAdvance_Some [of n d others fc fc'] pass_reached [of n fc] pass_pos [of n fc]
  by blast

lemma WaitAdvance_waits_for_threshold_example:
  "waitingCount (run [CallAfter 10, CallNewTimer 10] (NewFakeClock 0)) = 1 \<and>
   \<not> WaitAdvance_pass 2 (run [CallAfter 10, CallNewTimer 10] (NewFakeClock 0)) \<and>
   WaitAdvance 2 10 [[]] (run [CallAfter 10, CallNewTimer 10] (NewFakeClock 0)) = None \<and>
   waitingCount (run [CallAfter 10, CallNewTimer 10, CallC 1] (NewFakeClock 0)) = 2 \<and>
   WaitAdvance_pass 2 (run [CallAfter 10, CallNewTimer 10, CallC 1] (NewFakeClock 0)) \<and>
   WaitAdvance 2 10 [[CallC 1], []] (run [CallAfter 10, CallNewTimer 10] (NewFakeClock 0))
     = Some (Advance 10 (run [CallAfter 10, CallNewTimer 10, CallC 1] (NewFakeClock 0)))"
proof -
  let ?fc0 = "run [CallAfter 10, CallNewTimer 10] (NewFakeClock 0)"
  let ?fc1 = "run [CallAfter 10, CallNewTimer 10, CallC 1] (NewFakeClock 0)"
  let ?others = "[[CallC 1], []]"
  have c0: "waitingCount ?fc0 = 1" by (simp add: waitingCount_def eval_defs)
  have c1: "waitingCount ?fc1 = 2" by (simp add: waitingCount_def eval_defs)
  have ps0: "poll_state ?others 0 ?fc0 = ?fc0" by (simp add: poll_state_def)
  have ps1: "poll_state ?others (Suc 0) ?fc0 = ?fc1" by (simp add: poll_state_def)
  from WaitAdvance_waits_for_threshold [of 2 10 ?others ?fc0 "Advance 10 ?fc1"] c0
  have p0: "\<not> WaitAdvance_pass 2 ?fc0" by simp
  from WaitAdvance_waits_for_threshold [of 2 10 ?others ?fc1 "Advance 10 ?fc1"] c1
  have p1: "WaitAdvance_pass 2 ?fc1" by simp
  have "\<exists>k < length ?others.
         WaitAdvance_pass 2 (poll_state ?others k ?fc0) \<and>
         (\<forall>j < k. \<not> WaitAdvance_pass 2 (poll_state ?others j ?fc0)) \<and>
         Advance 10 ?fc1 = Advance 10 (run (?others ! k) (poll_state ?others k ?fc0))"
  proof (intro exI [of _ "Suc 0"] conjI allI impI)
    show "Suc 0 < length ?others" by simp
    show "WaitAdvance_pass 2 (poll_state ?others (Suc 0) ?fc0)" using p1 by (simp only: ps1)
    show "Advance 10 ?fc1 = Advance 10 (run (?others ! Suc 0) (poll_state ?others (Suc 0) ?fc0))"
      by (simp only: ps1) simp
    fix j :: nat assume "j < Suc 0"
    then have "j = 0" by simp
    then show "\<not> WaitAdvance_pass 2 (poll_state ?others j ?fc0)" using p0 by (simp add: poll_state_def)
  qed
  with WaitAdvance_waits_for_threshold [of 2 10 ?others ?fc0 "Advance 10 ?fc1"]
  have r: "WaitAdvance 2 10 ?others ?fc0 = Some (Advance 10 ?fc1)" by blast
  have n: "WaitAdvance 2 10 [[]] ?fc0 = None" using p0 by simp
  from c0 p0 n c1 p1 r show ?thesis by blast
qed

text \<open>
  C7 (the code departs from it): once at least \<open>numWaiters\<close> live waiters are watched,
  \<open>WaitAdvance\<close> should call \<open>Advance\<close> once and return. With \<open>numWaiters\<close> 0 the
  threshold holds on every clock, yet on a new clock (no waiter) and on a clock with one
  watched waiter \<open>WaitAdvance\<close> left alone is still polling after any number of passes;
  likewise with \<open>numWaiters\<close> negative.
\<close>

theorem WaitAdvance_zero_never_advances:
  "waitingCount (NewFakeClock 0) = 0 \<and>
   WaitAdvance 0 5 (replicate passes []) (NewFakeClock 0) = None \<and>
   waitingCount (snd (After 10 (NewFakeClock 0))) = 1 \<and>
   WaitAdvance 0 5 (replicate passes []) (snd (After 10 (NewFakeClock 0))) = None \<and>
   WaitAdvance (- 1) 5 (replicate passes []) (snd (After 10 (NewFakeClock 0))) = None"
proof -
  have p: "\<not> WaitAdvance_pass n (snd (After 10 (NewFakeClock 0)))" if "n \<le> 0" for n
    using that by (simp add: WaitAdvance_pass_def eval_defs)
  have q: "WaitAdvance n 5 (replicate passes []) (snd (After 10 (NewFakeClock 0))) = None" if "n \<le> 0" for n
    using p [OF that] by (induction passes) simp_all
  have e: "WaitAdvance 0 5 (replicate passes []) (NewFakeClock 0) = None"
    by (rule WaitAdvance_empty) (simp add: NewFakeClock_def)
  show ?thesis using q [of 0] q [of "- 1"] e
    by (simp add: waitingCount_def eval_defs)
qed

text \<open>
  C10: the comparison sits inside the loop over the waiters. On a clock with no waiters
  no pass succeeds, whatever \<open>numWaiters\<close> is (0 included), and \<open>WaitAdvance\<close> left alone
  is still polling after any number of passes. A pass succeeds exactly when, after some
  waiter of the scan, the running count of \<open>consumerWaiting\<close> waiters equals \<open>numWaiters\<close>.
\<close>

theorem WaitAdvance_compares_inside_loop:
  "(waiters fc = [] \<longrightarrow>
      \<not> WaitAdvance_pass n fc \<and> WaitAdvance n d (replicate passes []) fc = None) \<and>
   (WaitAdvance_pass n fc \<longleftrightarrow>
      (\<exists>k. 0 < k \<and> k \<le> length (waiters fc) \<and>
           int (length (filter (\<lambda>a. consumerWaiting (heap fc ! a)) (take k (waiters fc)))) = n))"
  using scan_iff [of n "heap fc" "waiters fc" 0] WaitAdvance_empty [of fc n d passes]
  by (simp add: WaitAdvance_pass_def)

theorem WaitAdvance_compares_inside_loop_witness:
  "waiters (NewFakeClock 0) = [] \<and>
   \<not> WaitAdvance_pass 0 (NewFakeClock 0) \<and>
   WaitAdvance 0 5 (replicate 3 []) (NewFakeClock 0) = None \<and>
   WaitAdvance_pass 0 (snd (NewTimer 10 (NewFakeClock 0))) \<and>
   \<not> WaitAdvance_pass 0 (snd (After 10 (NewFakeClock 0)))"
proof -
  have e: "waiters (NewFakeClock 0) = []" by (simp add: NewFakeClock_def)
  note t0 = WaitAdvance_compares_inside_loop [of "NewFakeClock 0" 0 5 3, THEN conjunct1, rule_format, OF e]
  have wt: "waiters (snd (NewTimer 10 (NewFakeClock 0))) = [0]"
    and ht: "\<not> consumerWaiting (heap (snd (NewTimer 10 (NewFakeClock 0))) ! 0)"
    and wa: "waiters (snd (After 10 (NewFakeClock 0))) = [0]"
    and ha: "consumerWaiting (heap (snd (After 10 (NewFakeClock 0))) ! 0)"
    by (simp_all add: eval_defs)
  have "\<exists>k. 0 < k \<and> k \<le> length (waiters (snd (NewTimer 10 (NewFakeClock 0)))) \<and>
     int (length (filter (\<lambda>a. consumerWaiting (heap (snd (NewTimer 10 (NewFakeClock 0))) ! a))
        (take k (waiters (snd (NewTimer 10 (NewFakeClock 0))))))) = 0"
    by (intro exI [of _ "Suc 0"]) (simp add: wt ht)
  with WaitAdvance_compares_inside_loop [of "snd (NewTimer 10 (NewFakeClock 0))" 0 5 3, THEN conjunct2]
  have pt: "WaitAdvance_pass 0 (snd (NewTimer 10 (NewFakeClock 0)))" by blast
  have "\<not> (\<exists>k. 0 < k \<and> k \<le> length (waiters (snd (After 10 (NewFakeClock 0)))) \<and>
     int (length (filter (\<lambda>a. consumerWaiting (heap (snd (After 10 (NewFakeClock 0))) ! a))
        (take k (waiters (snd (After 10 (NewFakeClock 0))))))) = 0)"
  proof
    assume "\<exists>k. 0 < k \<and> k \<le> length (waiters (snd (After 10 (NewFakeClock 0)))) \<and>
     int (length (filter (\<lambda>a. consumerWaiting (heap (snd (After 10 (NewFakeClock 0))) ! a))
        (take k (waiters (snd (After 10 (NewFakeClock 0))))))) = 0"
    then obtain k where k: "0 < k" "k \<le> length (waiters (snd (After 10 (NewFakeClock 0))))"
      "int (length (filter (\<lambda>a. consumerWaiting (heap (snd (After 10 (NewFakeClock 0))) ! a))
        (take k (waiters (snd (After 10 (NewFakeClock 0))))))) = 0" by blast
    from k(1,2) have "k = Suc 0" by (simp add: wa)
    with k(3) show False by (simp add: wa ha)
  qed
  with WaitAdvance_compares_inside_loop [of "snd (After 10 (NewFakeClock 0))" 0 5 3, THEN conjunct2]
  have pa: "\<not> WaitAdvance_pass 0 (snd (After 10 (NewFakeClock 0)))" by blast
  from e t0 pt pa show ?thesis by simp
qed

end
